theory Spec2Isabelle
  imports Main "HOL-Library.Word" "HOL-Library.Sublist"
begin

section \<open>JavaScript strings\<close>

text \<open>
  The validators and formatters of \<^verbatim>\<open>Library.mjs\<close>: \<^verbatim>\<open>validateEmail\<close>,
  \<^verbatim>\<open>checkPasswordStrength\<close>, \<^verbatim>\<open>validateRequired\<close>, \<^verbatim>\<open>validateDateFormat\<close>,
  \<^verbatim>\<open>formatDate\<close>, \<^verbatim>\<open>formatPhoneNumber\<close> and \<^verbatim>\<open>capitalizeName\<close>. The helpers that build
  form elements, show messages or submit a form work on the document and are not
  modelled.

  A JavaScript string is a sequence of UTF-16 code units; \<open>length\<close>, indexing and the
  regular expressions of \<^verbatim>\<open>Library.mjs\<close> (none carries the \<^verbatim>\<open>u\<close> flag) all work on code
  units. \<open>js\<close> embeds an ASCII literal. A function that can reach a property access on
  \<^verbatim>\<open>undefined\<close> returns \<open>js_error + jsstring\<close>, with \<open>Inl TypeError\<close> for the exception.
  \<open>'a jsval\<close> is the argument of \<^verbatim>\<open>validateRequired\<close>: \<^verbatim>\<open>undefined\<close>, \<^verbatim>\<open>null\<close>, a string,
  or any other value.
\<close>

type_synonym jschar = "16 word"
type_synonym jsstring = "jschar list"

definition js :: "string \<Rightarrow> jsstring" where
  "js s = map of_char s"

datatype js_error = TypeError

datatype 'a jsval = Undefined | Null | JString jsstring | JOther 'a

subsection \<open>Character classes\<close>

definition is_digit :: "jschar \<Rightarrow> bool" where
  \<comment> \<open>\<^verbatim>\<open>\d\<close>, \<^verbatim>\<open>[0-9]\<close>\<close>
  "is_digit c = (0x30 \<le> c \<and> c \<le> 0x39)"

definition is_lower :: "jschar \<Rightarrow> bool" where
  \<comment> \<open>\<^verbatim>\<open>[a-z]\<close>\<close>
  "is_lower c = (0x61 \<le> c \<and> c \<le> 0x7A)"

definition is_upper :: "jschar \<Rightarrow> bool" where
  \<comment> \<open>\<^verbatim>\<open>[A-Z]\<close>\<close>
  "is_upper c = (0x41 \<le> c \<and> c \<le> 0x5A)"

definition is_alnum :: "jschar \<Rightarrow> bool" where
  \<comment> \<open>\<^verbatim>\<open>[a-zA-Z0-9]\<close>\<close>
  "is_alnum c = (is_lower c \<or> is_upper c \<or> is_digit c)"

definition is_word :: "jschar \<Rightarrow> bool" where
  \<comment> \<open>\<^verbatim>\<open>\w\<close>, \<^verbatim>\<open>[A-Za-z0-9_]\<close>\<close>
  "is_word c = (is_alnum c \<or> c = 0x5F)"

definition is_line_terminator :: "jschar \<Rightarrow> bool" where
  \<comment> \<open>LF, CR, LINE SEPARATOR, PARAGRAPH SEPARATOR\<close>
  "is_line_terminator c = (c = 0x0A \<or> c = 0x0D \<or> c = 0x2028 \<or> c = 0x2029)"

definition is_space :: "jschar \<Rightarrow> bool" where
  \<comment> \<open>\<^verbatim>\<open>\s\<close>: the WhiteSpace and LineTerminator code points of ECMAScript\<close>
  "is_space c =
     (c = 0x09 \<or> c = 0x0B \<or> c = 0x0C \<or> c = 0x20 \<or> c = 0xA0 \<or> c = 0x1680
      \<or> (0x2000 \<le> c \<and> c \<le> 0x200A) \<or> c = 0x202F \<or> c = 0x205F \<or> c = 0x3000
      \<or> c = 0xFEFF \<or> is_line_terminator c)"

definition dot :: "jschar \<Rightarrow> bool" where
  \<comment> \<open>\<^verbatim>\<open>.\<close> without the \<^verbatim>\<open>s\<close> flag: every code unit but a line terminator\<close>
  "dot c = (\<not> is_line_terminator c)"

definition not_space_at :: "jschar \<Rightarrow> bool" where
  \<comment> \<open>\<^verbatim>\<open>[^\s@]\<close>\<close>
  "not_space_at c = (\<not> is_space c \<and> c \<noteq> 0x40)"

subsection \<open>Regular expressions that are sequences of quantified character classes\<close>

text \<open>
  \<open>Rep c lo hi\<close> is the class \<open>c\<close> under the quantifier \<^verbatim>\<open>{lo,hi}\<close> (\<open>None\<close>: unbounded).
  \<open>matches_from anchored r s\<close> holds when \<open>r\<close> matches at the start of \<open>s\<close>; with
  \<open>anchored\<close> (a trailing \<^verbatim>\<open>$\<close>; no expression has the \<^verbatim>\<open>m\<close> flag) the match must use
  up all of \<open>s\<close>. Every number of repetitions is tried, as backtracking does.
\<close>

datatype atom = Rep "jschar \<Rightarrow> bool" nat "nat option"

definition once :: "(jschar \<Rightarrow> bool) \<Rightarrow> atom" where
  "once c = Rep c 1 (Some 1)"

definition lit :: "jschar \<Rightarrow> atom" where
  "lit ch = Rep (\<lambda>c. c = ch) 1 (Some 1)"

definition many1 :: "(jschar \<Rightarrow> bool) \<Rightarrow> atom" where
  "many1 c = Rep c 1 None"

definition many :: "(jschar \<Rightarrow> bool) \<Rightarrow> atom" where
  "many c = Rep c 0 None"

definition exactly :: "nat \<Rightarrow> (jschar \<Rightarrow> bool) \<Rightarrow> atom" where
  "exactly n c = Rep c n (Some n)"

fun upper_bound :: "nat option \<Rightarrow> nat \<Rightarrow> nat" where
  "upper_bound None n = n"
| "upper_bound (Some h) n = min h n"

fun matches_from :: "bool \<Rightarrow> atom list \<Rightarrow> jsstring \<Rightarrow> bool" where
  "matches_from anchored [] s = (anchored \<longrightarrow> s = [])"
| "matches_from anchored (Rep c lo hi # r) s =
     list_ex (\<lambda>n. list_all c (take n s) \<and> matches_from anchored r (drop n s))
       [lo ..< Suc (upper_bound hi (length s))]"

definition test_whole :: "atom list \<Rightarrow> jsstring \<Rightarrow> bool" where
  \<comment> \<open>\<^verbatim>\<open>/^r$/.test(s)\<close>\<close>
  "test_whole r s = matches_from True r s"

fun search :: "atom list \<Rightarrow> jsstring \<Rightarrow> bool" where
  \<comment> \<open>\<^verbatim>\<open>/r/.test(s)\<close>: a match starting at some position, the end of \<open>s\<close> included\<close>
  "search r [] = matches_from False r []"
| "search r (c # cs) = (matches_from False r (c # cs) \<or> search r cs)"

fun split_on :: "jschar \<Rightarrow> jsstring \<Rightarrow> jsstring list" where
  \<comment> \<open>\<^verbatim>\<open>s.split(d)\<close> for a separator of one code unit\<close>
  "split_on d [] = [[]]"
| "split_on d (c # cs) =
     (if c = d then [] # split_on d cs
      else (case split_on d cs of [] \<Rightarrow> [[c]] | p # ps \<Rightarrow> (c # p) # ps))"

section \<open>validateEmail\<close>

definition msg_email_empty :: jsstring where
  "msg_email_empty = js ''Email address cannot be empty.''"

definition msg_email_format :: jsstring where
  "msg_email_format = js ''Invalid email address format. Must be in format name@example.com''"

definition msg_email_domain :: jsstring where
  "msg_email_domain = js ''Invalid domain in email address. Must include a valid domain.''"

definition msg_email_local :: jsstring where
  "msg_email_local =
     js ''Local part of the email address is too long. Must be 64 characters or fewer.''"

definition formatRe :: "atom list" where
  \<comment> \<open>\<^verbatim>\<open>/^[^\s@]+@[^\s@]+\.[^\s@]+$/\<close>\<close>
  "formatRe = [many1 not_space_at, lit 0x40, many1 not_space_at, lit 0x2E, many1 not_space_at]"

definition domainRe_group :: "atom list" where
  \<comment> \<open>the group of \<^verbatim>\<open>/@([^\s@]+\.[^\s@]+)$/\<close>\<close>
  "domainRe_group = [many1 not_space_at, lit 0x2E, many1 not_space_at]"

fun match_domainRe :: "jsstring \<Rightarrow> jsstring option" where
  \<comment> \<open>\<^verbatim>\<open>email.match(domainRe)\<close>: group 1 of the leftmost match, \<open>None\<close> for \<^verbatim>\<open>null\<close>\<close>
  "match_domainRe [] = None"
| "match_domainRe (c # cs) =
     (if c = 0x40 \<and> matches_from True domainRe_group cs then Some cs
      else match_domainRe cs)"

definition validateEmail :: "jsstring \<Rightarrow> js_error + jsstring" where
  "validateEmail email =
     (if email = [] then Inr msg_email_empty
      else if \<not> test_whole formatRe email then Inr msg_email_format
      else if (case match_domainRe email of
                 Some g \<Rightarrow> length (split_on 0x2E g) < 2
               | None \<Rightarrow> False)
      then Inr msg_email_domain
      else (case split_on 0x40 email of
              [] \<Rightarrow> Inl TypeError
            | localPart # _ \<Rightarrow>
                if length localPart > 64 then Inr msg_email_local else Inr []))"

section \<open>checkPasswordStrength\<close>

definition msg_pw_special :: jsstring where
  "msg_pw_special = js ''Password must include at least two special characters.''"

definition msg_pw_sequential :: jsstring where
  "msg_pw_sequential = js ''Password must not contain sequential characters or letters.''"

definition msg_pw_repeating :: jsstring where
  "msg_pw_repeating =
     js ''Password must not contain more than two repeating characters or numbers in a row.''"

definition msg_pw_digit :: jsstring where
  "msg_pw_digit = js ''Password must include at least one digit.''"

definition msg_pw_lower :: jsstring where
  "msg_pw_lower = js ''Password must include at least one lowercase letter.''"

definition msg_pw_upper :: jsstring where
  "msg_pw_upper = js ''Password must include at least one uppercase letter.''"

definition msg_pw_length :: jsstring where
  "msg_pw_length = js ''Password must be between 6 and 20 characters long.''"

definition specialCharCount :: "jsstring \<Rightarrow> nat" where
  \<comment> \<open>\<^verbatim>\<open>(password.match(/[^a-zA-Z0-9]/g) || []).length\<close>\<close>
  "specialCharCount password = length (filter (\<lambda>c. \<not> is_alnum c) password)"

definition sequence_table :: "jsstring list" where
  "sequence_table = map js
     [''012'', ''123'', ''234'', ''345'', ''456'', ''567'', ''678'', ''789'', ''890'',
      ''abc'', ''bcd'', ''cde'', ''def'', ''efg'', ''fgh'', ''ghi'', ''hij'', ''ijk'',
      ''jkl'', ''klm'', ''lmn'', ''mno'', ''nop'', ''opq'', ''pqr'', ''qrs'', ''rst'',
      ''stu'', ''tuv'', ''uvw'', ''wxy'', ''xyz'',
      ''1234'', ''2345'', ''3456'', ''4567'', ''5678'', ''6789'', ''7890'']"

definition sequentialPattern :: "jsstring \<Rightarrow> bool" where
  \<comment> \<open>\<^verbatim>\<open>sequentialPattern.test(password)\<close>: some alternative matches somewhere\<close>
  "sequentialPattern password = list_ex (\<lambda>w. search (map lit w) password) sequence_table"

fun repeatingPattern :: "jsstring \<Rightarrow> bool" where
  \<comment> \<open>\<^verbatim>\<open>/(.)\1{2,}/.test(password)\<close>: a code unit matched by \<^verbatim>\<open>.\<close>, then two copies of it\<close>
  "repeatingPattern (a # b # c # s) =
     ((dot a \<and> b = a \<and> c = a) \<or> repeatingPattern (b # c # s))"
| "repeatingPattern s = False"

definition lookahead_any :: "(jschar \<Rightarrow> bool) \<Rightarrow> jsstring \<Rightarrow> bool" where
  \<comment> \<open>\<^verbatim>\<open>/(?=.*c)/.test(password)\<close>: at some position the lookahead \<^verbatim>\<open>.*c\<close> succeeds\<close>
  "lookahead_any c password = search [many dot, once c] password"

definition lengthRe :: "atom list" where
  \<comment> \<open>\<^verbatim>\<open>/^.{6,20}$/\<close>\<close>
  "lengthRe = [Rep dot 6 (Some 20)]"

definition checkPasswordStrength :: "jsstring \<Rightarrow> jsstring" where
  "checkPasswordStrength password =
     (if specialCharCount password < 2 then msg_pw_special
      else if sequentialPattern password then msg_pw_sequential
      else if repeatingPattern password then msg_pw_repeating
      else if \<not> lookahead_any is_digit password then msg_pw_digit
      else if \<not> lookahead_any is_lower password then msg_pw_lower
      else if \<not> lookahead_any is_upper password then msg_pw_upper
      else if \<not> test_whole lengthRe password then msg_pw_length
      else [])"

section \<open>validateRequired\<close>

definition validateRequired :: "'a jsval \<Rightarrow> bool" where
  "validateRequired v =
     (if v = Undefined \<or> v = Null \<or> v = JString [] then False else True)"

section \<open>validateDateFormat and formatDate\<close>

definition dateRe :: "atom list" where
  \<comment> \<open>\<^verbatim>\<open>/^\d{4}-\d{2}-\d{2}$/\<close>\<close>
  "dateRe = [exactly 4 is_digit, lit 0x2D, exactly 2 is_digit, lit 0x2D, exactly 2 is_digit]"

definition validateDateFormat :: "jsstring \<Rightarrow> bool" where
  "validateDateFormat date = test_whole dateRe date"

definition msg_date_format :: jsstring where
  "msg_date_format = js ''Invalid date format. Use YYYY-MM-DD.''"

definition msg_date_components :: jsstring where
  "msg_date_components = js ''Invalid date components. Please use a valid date.''"

definition padStart :: "nat \<Rightarrow> jschar \<Rightarrow> jsstring \<Rightarrow> jsstring" where
  \<comment> \<open>\<^verbatim>\<open>s.padStart(n, f)\<close> for a filler of one code unit\<close>
  "padStart n f s = replicate (n - length s) f @ s"

definition trim :: "jsstring \<Rightarrow> jsstring" where
  "trim s = rev (dropWhile is_space (rev (dropWhile is_space s)))"

definition all_digits :: "jsstring \<Rightarrow> bool" where
  \<comment> \<open>DecimalDigits: one decimal digit or more\<close>
  "all_digits s = (s \<noteq> [] \<and> list_all is_digit s)"

definition signed_integer :: "jsstring \<Rightarrow> bool" where
  "signed_integer s =
     (case s of
        [] \<Rightarrow> False
      | c # t \<Rightarrow> if c = 0x2B \<or> c = 0x2D then all_digits t else all_digits s)"

definition exponent_opt :: "jsstring \<Rightarrow> bool" where
  "exponent_opt s =
     (case s of [] \<Rightarrow> True | c # t \<Rightarrow> (c = 0x65 \<or> c = 0x45) \<and> signed_integer t)"

definition unsigned_decimal :: "jsstring \<Rightarrow> bool" where
  \<comment> \<open>StrUnsignedDecimalLiteral\<close>
  "unsigned_decimal s =
     (s = js ''Infinity'' \<or>
      (let ip = takeWhile is_digit s; r = dropWhile is_digit s in
       case r of
         [] \<Rightarrow> ip \<noteq> []
       | c # t \<Rightarrow>
           if c = 0x2E
           then (ip \<noteq> [] \<or> takeWhile is_digit t \<noteq> []) \<and> exponent_opt (dropWhile is_digit t)
           else ip \<noteq> [] \<and> exponent_opt r))"

definition is_hex_digit :: "jschar \<Rightarrow> bool" where
  "is_hex_digit c =
     (is_digit c \<or> (0x61 \<le> c \<and> c \<le> 0x66) \<or> (0x41 \<le> c \<and> c \<le> 0x46))"

definition non_decimal :: "jsstring \<Rightarrow> bool" where
  \<comment> \<open>NonDecimalIntegerLiteral: \<^verbatim>\<open>0x\<close>, \<^verbatim>\<open>0o\<close>, \<^verbatim>\<open>0b\<close> and their digits\<close>
  "non_decimal s =
     (case s of
        z # k # ds \<Rightarrow>
          z = 0x30 \<and> ds \<noteq> [] \<and>
          (((k = 0x78 \<or> k = 0x58) \<and> list_all is_hex_digit ds)
           \<or> ((k = 0x6F \<or> k = 0x4F) \<and> list_all (\<lambda>c. 0x30 \<le> c \<and> c \<le> 0x37) ds)
           \<or> ((k = 0x62 \<or> k = 0x42) \<and> list_all (\<lambda>c. c = 0x30 \<or> c = 0x31) ds))
      | _ \<Rightarrow> False)"

definition isNaN :: "jsstring \<Rightarrow> bool" where
  \<comment> \<open>\<^verbatim>\<open>isNaN(s)\<close> on a string: \<open>s\<close> is not a StringNumericLiteral\<close>
  "isNaN s =
     (let t = trim s in
      \<not> (t = [] \<or> non_decimal t \<or>
         (case t of
            c # u \<Rightarrow> if c = 0x2B \<or> c = 0x2D then unsigned_decimal u else unsigned_decimal t
          | [] \<Rightarrow> False)))"

definition digit_value :: "jschar \<Rightarrow> nat" where
  \<comment> \<open>the value of a digit in a radix up to 36; 36 for any other code unit\<close>
  "digit_value c =
     (if is_digit c then unat c - 0x30
      else if is_lower c then unat c - 0x61 + 10
      else if is_upper c then unat c - 0x41 + 10
      else 36)"

definition parseInt :: "jsstring \<Rightarrow> int option" where
  \<comment> \<open>\<^verbatim>\<open>parseInt(s)\<close> with no radix; \<open>None\<close> is \<^verbatim>\<open>NaN\<close>\<close>
  "parseInt str =
     (let S = dropWhile is_space str;
          sgn = (case S of [] \<Rightarrow> 1 | c # _ \<Rightarrow> if c = 0x2D then - 1 else (1::int));
          S1 = (case S of [] \<Rightarrow> S | c # t \<Rightarrow> if c = 0x2B \<or> c = 0x2D then t else S);
          hex = (case S1 of z # k # _ \<Rightarrow> z = 0x30 \<and> (k = 0x78 \<or> k = 0x58) | _ \<Rightarrow> False);
          R = (if hex then 16 else 10);
          S2 = (if hex then drop 2 S1 else S1);
          Z = takeWhile (\<lambda>c. digit_value c < R) S2
      in if Z = [] then None
         else Some (sgn * int (foldl (\<lambda>a c. a * R + digit_value c) 0 Z)))"

definition num_less :: "int option \<Rightarrow> int \<Rightarrow> bool" where
  \<comment> \<open>\<^verbatim>\<open>x < k\<close>; false when \<open>x\<close> is \<^verbatim>\<open>NaN\<close>\<close>
  "num_less x k = (case x of None \<Rightarrow> False | Some v \<Rightarrow> v < k)"

definition num_greater :: "int option \<Rightarrow> int \<Rightarrow> bool" where
  \<comment> \<open>\<^verbatim>\<open>x > k\<close>; false when \<open>x\<close> is \<^verbatim>\<open>NaN\<close>\<close>
  "num_greater x k = (case x of None \<Rightarrow> False | Some v \<Rightarrow> v > k)"

definition formatDate :: "jsstring \<Rightarrow> js_error + jsstring" where
  "formatDate date =
     (if \<not> validateDateFormat date then Inr msg_date_format
      else
        (case split_on 0x2D date of
           y # m # d # _ \<Rightarrow>
             (let year = padStart 4 0x30 y;
                  month = padStart 2 0x30 m;
                  day = padStart 2 0x30 d
              in if isNaN year \<or> isNaN month \<or> isNaN day
                    \<or> num_less (parseInt month) 1 \<or> num_greater (parseInt month) 12
                    \<or> num_less (parseInt day) 1 \<or> num_greater (parseInt day) 31
                 then Inr msg_date_components
                 else Inr (year @ [0x2D] @ month @ [0x2D] @ day))
         | _ \<Rightarrow> Inl TypeError))"

section \<open>formatPhoneNumber\<close>

definition phoneRe :: "atom list" where
  \<comment> \<open>\<^verbatim>\<open>/(\d{3})(\d{3})(\d{4})/\<close>\<close>
  "phoneRe = [exactly 3 is_digit, exactly 3 is_digit, exactly 4 is_digit]"

definition phone_replacement :: "jsstring \<Rightarrow> jsstring" where
  \<comment> \<open>\<^verbatim>\<open>'($1) $2-$3'\<close> for a match \<open>m\<close>, whose groups are 3, 3 and 4 code units wide\<close>
  "phone_replacement m =
     js ''('' @ take 3 m @ js '') '' @ take 3 (drop 3 m) @ js ''-'' @ take 4 (drop 6 m)"

fun formatPhoneNumber :: "jsstring \<Rightarrow> jsstring" where
  \<comment> \<open>\<^verbatim>\<open>number.replace(phoneRe, ...)\<close>: the leftmost match only (no \<^verbatim>\<open>g\<close> flag)\<close>
  "formatPhoneNumber [] = []"
| "formatPhoneNumber (c # cs) =
     (if matches_from False phoneRe (c # cs)
      then phone_replacement (take 10 (c # cs)) @ drop 10 (c # cs)
      else c # formatPhoneNumber cs)"

section \<open>capitalizeName\<close>

definition toUpperCase :: "jschar \<Rightarrow> jschar" where
  \<comment> \<open>\<^verbatim>\<open>char.toUpperCase()\<close> on a code unit that \<^verbatim>\<open>\w\<close> matches (so an ASCII one)\<close>
  "toUpperCase c = (if is_lower c then c - 0x20 else c)"

fun capitalize_from :: "bool \<Rightarrow> jsstring \<Rightarrow> jsstring" where
  \<comment> \<open>\<^verbatim>\<open>/\b\w/g\<close>: \<open>prev\<close> tells whether the code unit before is a word character\<close>
  "capitalize_from prev [] = []"
| "capitalize_from prev (c # cs) =
     (if is_word c \<and> \<not> prev then toUpperCase c else c) # capitalize_from (is_word c) cs"

definition capitalizeName :: "jsstring \<Rightarrow> jsstring" where
  "capitalizeName name = capitalize_from False name"

section \<open>The password rules in the words of the specification\<close>

text \<open>
  The seven rules of the password validator as the specification lists them, stated on
  the string itself, and the message of the first rule that fails. The sequence table of
  the second rule is the one that the specification describes, not the alternation of
  \<^verbatim>\<open>sequentialPattern\<close>. They are compared with \<open>checkPasswordStrength\<close> below.
\<close>

definition rule_special :: "jsstring \<Rightarrow> bool" where
  "rule_special p = (2 \<le> length (filter (\<lambda>c. \<not> is_alnum c) p))"

definition spec_sequence_table :: "jsstring list" where
  \<comment> \<open>the table as the specification gives it: the ascending runs of three digits
     \<^verbatim>\<open>012\<close> to \<^verbatim>\<open>890\<close>, of three letters \<^verbatim>\<open>abc\<close> to \<^verbatim>\<open>xyz\<close> (all 24 of them), and of four
     digits \<^verbatim>\<open>1234\<close> to \<^verbatim>\<open>7890\<close>\<close>
  "spec_sequence_table = map js
     [''012'', ''123'', ''234'', ''345'', ''456'', ''567'', ''678'', ''789'', ''890'',
      ''abc'', ''bcd'', ''cde'', ''def'', ''efg'', ''fgh'', ''ghi'', ''hij'', ''ijk'',
      ''jkl'', ''klm'', ''lmn'', ''mno'', ''nop'', ''opq'', ''pqr'', ''qrs'', ''rst'',
      ''stu'', ''tuv'', ''uvw'', ''vwx'', ''wxy'', ''xyz'',
      ''1234'', ''2345'', ''3456'', ''4567'', ''5678'', ''6789'', ''7890'']"

definition rule_no_sequence :: "jsstring \<Rightarrow> bool" where
  "rule_no_sequence p = (\<not> list_ex (\<lambda>w. sublist w p) spec_sequence_table)"

definition rule_no_repeat :: "jsstring \<Rightarrow> bool" where
  "rule_no_repeat p = (\<not> list_ex (\<lambda>c. sublist [c, c, c] p) p)"

definition rule_digit :: "jsstring \<Rightarrow> bool" where
  "rule_digit p = list_ex is_digit p"

definition rule_lower :: "jsstring \<Rightarrow> bool" where
  "rule_lower p = list_ex is_lower p"

definition rule_upper :: "jsstring \<Rightarrow> bool" where
  "rule_upper p = list_ex is_upper p"

definition rule_length :: "jsstring \<Rightarrow> bool" where
  "rule_length p = (6 \<le> length p \<and> length p \<le> 20)"

definition first_violation :: "jsstring \<Rightarrow> jsstring" where
  "first_violation p =
     (if \<not> rule_special p then msg_pw_special
      else if \<not> rule_no_sequence p then msg_pw_sequential
      else if \<not> rule_no_repeat p then msg_pw_repeating
      else if \<not> rule_digit p then msg_pw_digit
      else if \<not> rule_lower p then msg_pw_lower
      else if \<not> rule_upper p then msg_pw_upper
      else if \<not> rule_length p then msg_pw_length
      else [])"

definition all_rules :: "jsstring \<Rightarrow> bool" where
  "all_rules p = (rule_special p \<and> rule_no_sequence p \<and> rule_no_repeat p \<and> rule_digit p
      \<and> rule_lower p \<and> rule_upper p \<and> rule_length p)"

section \<open>The email rules in the words of the specification\<close>

text \<open>
  \<open>local_part\<close> is the substring before the first \<^verbatim>\<open>@\<close> and \<open>domain_part\<close> the one after
  the last \<^verbatim>\<open>@\<close>. \<open>spec_email_valid\<close> is the validity condition as the specification words
  it; \<open>email_shape\<close> is the shape that the overall-format check accepts.
\<close>

definition local_part :: "jsstring \<Rightarrow> jsstring" where
  "local_part s = takeWhile (\<lambda>c. c \<noteq> 0x40) s"

definition domain_part :: "jsstring \<Rightarrow> jsstring" where
  "domain_part s = rev (takeWhile (\<lambda>c. c \<noteq> 0x40) (rev s))"

definition spec_email_valid :: "jsstring \<Rightarrow> bool" where
  "spec_email_valid s =
     (0x40 \<in> set s \<and> local_part s \<noteq> [] \<and> \<not> list_ex is_space (local_part s)
      \<and> length (local_part s) \<le> 64 \<and> 2 \<le> length (split_on 0x2E (domain_part s)))"

definition email_shape :: "jsstring \<Rightarrow> bool" where
  "email_shape s =
     (let l = local_part s; d = drop (Suc (length l)) s
      in l \<noteq> [] \<and> length l < length s \<and> list_all not_space_at l \<and> list_all not_space_at d
         \<and> 0x2E \<in> set (butlast (tl d)))"

definition first_email_failure :: "jsstring \<Rightarrow> jsstring" where
  "first_email_failure s =
     (if s = [] then msg_email_empty
      else if \<not> email_shape s then msg_email_format
      else if length (split_on 0x2E (domain_part s)) < 2 then msg_email_domain
      else if length (local_part s) > 64 then msg_email_local
      else [])"

section \<open>Dates in the words of the specification\<close>

text \<open>
  \<open>date_shape\<close> is the literal shape \<^verbatim>\<open>DDDD-DD-DD\<close>; the year, month and day are read at
  their fixed places, and \<open>decimal\<close> is the number that a string of digits denotes.
\<close>

definition date_shape :: "jsstring \<Rightarrow> bool" where
  "date_shape d =
     (length d = 10 \<and> list_all is_digit (take 4 d) \<and> d ! 4 = 0x2D
      \<and> list_all is_digit (take 2 (drop 5 d)) \<and> d ! 7 = 0x2D
      \<and> list_all is_digit (drop 8 d))"

definition decimal :: "jsstring \<Rightarrow> nat" where
  "decimal s = foldl (\<lambda>a c. 10 * a + (unat c - 0x30)) 0 s"

definition year_of :: "jsstring \<Rightarrow> jsstring" where
  "year_of d = take 4 d"

definition month_of :: "jsstring \<Rightarrow> jsstring" where
  "month_of d = take 2 (drop 5 d)"

definition day_of :: "jsstring \<Rightarrow> jsstring" where
  "day_of d = take 2 (drop 8 d)"

definition out_of_range :: "jsstring \<Rightarrow> bool" where
  "out_of_range d =
     (decimal (month_of d) < 1 \<or> 12 < decimal (month_of d)
      \<or> decimal (day_of d) < 1 \<or> 31 < decimal (day_of d))"

definition not_numeric :: "jsstring \<Rightarrow> bool" where
  "not_numeric d =
     (isNaN (padStart 4 0x30 (year_of d)) \<or> isNaN (padStart 2 0x30 (month_of d))
      \<or> isNaN (padStart 2 0x30 (day_of d)))"

definition reassembled :: "jsstring \<Rightarrow> jsstring" where
  "reassembled d =
     padStart 4 0x30 (year_of d) @ [0x2D] @ padStart 2 0x30 (month_of d) @ [0x2D]
       @ padStart 2 0x30 (day_of d)"

section \<open>Digit runs and word starts\<close>

text \<open>
  \<open>digit_window s i\<close>: ten consecutive digits start at index \<open>i\<close>. \<open>is_ascii\<close>: a code
  unit up to U+007F. \<open>word_start s i\<close>: a
  word character at \<open>i\<close> with no word character before it. \<open>spec_word_start s i\<close>: the
  first code unit of a whitespace-delimited word, as the specification words it.
\<close>

definition digit_window :: "jsstring \<Rightarrow> nat \<Rightarrow> bool" where
  "digit_window s i = (i + 10 \<le> length s \<and> list_all is_digit (take 10 (drop i s)))"

definition is_ascii :: "jschar \<Rightarrow> bool" where
  "is_ascii c = (c \<le> 0x7F)"

definition word_start :: "jsstring \<Rightarrow> nat \<Rightarrow> bool" where
  "word_start s i = (is_word (s ! i) \<and> (i = 0 \<or> \<not> is_word (s ! (i - 1))))"

definition spec_word_start :: "jsstring \<Rightarrow> nat \<Rightarrow> bool" where
  "spec_word_start s i = (\<not> is_space (s ! i) \<and> (i = 0 \<or> is_space (s ! (i - 1))))"

section \<open>Properties\<close>

subsection \<open>Matching\<close>

lemma matches_from_Rep:
  "matches_from anc (Rep c lo hi # r) s \<longleftrightarrow>
     (\<exists>u v. s = u @ v \<and> lo \<le> length u \<and> (case hi of None \<Rightarrow> True | Some h \<Rightarrow> length u \<le> h)
        \<and> list_all c u \<and> matches_from anc r v)"
proof
  assume "matches_from anc (Rep c lo hi # r) s"
  then obtain n where n: "lo \<le> n" "n \<le> upper_bound hi (length s)"
      "list_all c (take n s)" "matches_from anc r (drop n s)"
    by (auto simp: list_ex_iff)
  have "s = take n s @ drop n s" by simp
  moreover have "lo \<le> length (take n s)" using n(1,2) by (cases hi) auto
  moreover have "case hi of None \<Rightarrow> True | Some h \<Rightarrow> length (take n s) \<le> h"
    using n(2) by (cases hi) auto
  ultimately show "\<exists>u v. s = u @ v \<and> lo \<le> length u
        \<and> (case hi of None \<Rightarrow> True | Some h \<Rightarrow> length u \<le> h)
        \<and> list_all c u \<and> matches_from anc r v"
    using n(3,4) by blast
next
  assume "\<exists>u v. s = u @ v \<and> lo \<le> length u
        \<and> (case hi of None \<Rightarrow> True | Some h \<Rightarrow> length u \<le> h)
        \<and> list_all c u \<and> matches_from anc r v"
  then obtain u v where uv: "s = u @ v" "lo \<le> length u"
      "case hi of None \<Rightarrow> True | Some h \<Rightarrow> length u \<le> h" "list_all c u" "matches_from anc r v"
    by blast
  have "length u \<le> upper_bound hi (length s)"
    using uv(1,3) by (cases hi) auto
  then have "length u \<in> set [lo ..< Suc (upper_bound hi (length s))]"
    using uv(2) by auto
  moreover have "list_all c (take (length u) s) \<and> matches_from anc r (drop (length u) s)"
    using uv by simp
  ultimately show "matches_from anc (Rep c lo hi # r) s"
    unfolding matches_from.simps list_ex_iff by blast
qed

lemma matches_from_lit:
  "matches_from anc (lit ch # r) s \<longleftrightarrow> (\<exists>v. s = ch # v \<and> matches_from anc r v)"
proof
  assume "matches_from anc (lit ch # r) s"
  then show "\<exists>v. s = ch # v \<and> matches_from anc r v"
    unfolding lit_def matches_from_Rep
    by (auto simp: length_Suc_conv le_Suc_eq list_all_iff)
next
  assume "\<exists>v. s = ch # v \<and> matches_from anc r v"
  then obtain v where "s = [ch] @ v" "matches_from anc r v" by auto
  then show "matches_from anc (lit ch # r) s"
    unfolding lit_def matches_from_Rep by (intro exI[of _ "[ch]"] exI[of _ v]) simp
qed

lemma matches_from_once:
  "matches_from anc (once c # r) s \<longleftrightarrow> (\<exists>x v. s = x # v \<and> c x \<and> matches_from anc r v)"
proof
  assume "matches_from anc (once c # r) s"
  then show "\<exists>x v. s = x # v \<and> c x \<and> matches_from anc r v"
    unfolding once_def matches_from_Rep
    by (auto simp: length_Suc_conv le_Suc_eq list_all_iff)
next
  assume "\<exists>x v. s = x # v \<and> c x \<and> matches_from anc r v"
  then obtain x v where "s = [x] @ v" "c x" "matches_from anc r v" by auto
  then show "matches_from anc (once c # r) s"
    unfolding once_def matches_from_Rep by (intro exI[of _ "[x]"] exI[of _ v]) simp
qed

lemma matches_from_many1:
  "matches_from anc (many1 c # r) s \<longleftrightarrow>
     (\<exists>u v. s = u @ v \<and> u \<noteq> [] \<and> list_all c u \<and> matches_from anc r v)"
  unfolding many1_def matches_from_Rep
  by (auto simp: Suc_le_eq)

lemma matches_from_many:
  "matches_from anc (many c # r) s \<longleftrightarrow>
     (\<exists>u v. s = u @ v \<and> list_all c u \<and> matches_from anc r v)"
  unfolding many_def matches_from_Rep by auto

lemma matches_from_exactly:
  "matches_from anc (exactly n c # r) s \<longleftrightarrow>
     (\<exists>u v. s = u @ v \<and> length u = n \<and> list_all c u \<and> matches_from anc r v)"
  unfolding exactly_def matches_from_Rep by (auto simp: le_antisym) blast

lemma matches_from_literal:
  "matches_from False (map lit w) s \<longleftrightarrow> prefix w s"
  by (induction w arbitrary: s) (auto simp: matches_from_lit prefix_def)

lemma search_literal: "search (map lit w) s \<longleftrightarrow> sublist w s"
  by (induction s) (auto simp: matches_from_literal sublist_Cons_right)

lemma search_iff:
  "search r s \<longleftrightarrow> (\<exists>i\<le>length s. matches_from False r (drop i s))"
proof (induction s)
  case Nil
  then show ?case by simp
next
  case (Cons a s)
  show ?case
  proof
    assume "search r (a # s)"
    then consider "matches_from False r (a # s)" | "search r s" by auto
    then show "\<exists>i\<le>length (a # s). matches_from False r (drop i (a # s))"
    proof cases
      case 1
      then have "matches_from False r (drop 0 (a # s))" by simp
      then show ?thesis by blast
    next
      case 2
      then obtain i where "i \<le> length s" "matches_from False r (drop i s)"
        using Cons.IH by blast
      then have "Suc i \<le> length (a # s) \<and> matches_from False r (drop (Suc i) (a # s))" by simp
      then show ?thesis by blast
    qed
  next
    assume "\<exists>i\<le>length (a # s). matches_from False r (drop i (a # s))"
    then obtain i where i: "i \<le> length (a # s)" "matches_from False r (drop i (a # s))" by blast
    show "search r (a # s)"
    proof (cases i)
      case 0
      then show ?thesis using i by simp
    next
      case (Suc j)
      then have "j \<le> length s \<and> matches_from False r (drop j s)" using i by simp
      then show ?thesis using Cons.IH by auto
    qed
  qed
qed

lemma lookahead_any_iff: "lookahead_any c p \<longleftrightarrow> list_ex c p"
proof
  assume "lookahead_any c p"
  then obtain i where "matches_from False [many dot, once c] (drop i p)"
    unfolding lookahead_any_def search_iff by blast
  then obtain u x v where "drop i p = u @ x # v" "c x"
    by (auto simp: matches_from_many matches_from_once)
  then have "x \<in> set (drop i p)" by simp
  then have "x \<in> set p" by (rule in_set_dropD)
  with \<open>c x\<close> show "list_ex c p" by (auto simp: list_ex_iff)
next
  assume "list_ex c p"
  then obtain x where "x \<in> set p" "c x" by (auto simp: list_ex_iff)
  then obtain ys zs where p: "p = ys @ x # zs" by (auto simp: in_set_conv_decomp)
  have "matches_from False [many dot, once c] (x # zs)"
    unfolding matches_from_many matches_from_once using \<open>c x\<close>
    by (intro exI[of _ "[]"] exI[of _ "x # zs"]) simp
  then have "matches_from False [many dot, once c] (drop (length ys) p)" using p by simp
  moreover have "length ys \<le> length p" using p by simp
  ultimately show "lookahead_any c p" unfolding lookahead_any_def search_iff by blast
qed

lemma lengthRe_iff:
  "test_whole lengthRe p \<longleftrightarrow> 6 \<le> length p \<and> length p \<le> 20 \<and> list_all dot p"
  unfolding test_whole_def lengthRe_def matches_from_Rep by auto

lemma repeatingPattern_iff:
  "repeatingPattern p \<longleftrightarrow> (\<exists>c. dot c \<and> sublist [c, c, c] p)"
proof (induction p rule: repeatingPattern.induct)
  case (1 a b c s)
  show ?case
    unfolding repeatingPattern.simps "1.IH"
    by (subst (2) sublist_Cons_right) (auto simp: prefix_Cons)
qed (auto simp: sublist_Cons_right prefix_Cons)

subsection \<open>The checks of the password validator\<close>

lemma pw_msgs_nonempty:
  "msg_pw_special \<noteq> []" "msg_pw_sequential \<noteq> []" "msg_pw_repeating \<noteq> []"
  "msg_pw_digit \<noteq> []" "msg_pw_lower \<noteq> []" "msg_pw_upper \<noteq> []" "msg_pw_length \<noteq> []"
  by (simp_all add: js_def msg_pw_special_def msg_pw_sequential_def msg_pw_repeating_def
      msg_pw_digit_def msg_pw_lower_def msg_pw_upper_def msg_pw_length_def)

lemma sequentialPattern_iff:
  "sequentialPattern p \<longleftrightarrow> list_ex (\<lambda>w. sublist w p) sequence_table"
  by (simp add: sequentialPattern_def search_literal)

lemma sublist_triple_in_set: "sublist [c, c, c] p \<Longrightarrow> c \<in> set p"
  by (auto simp: sublist_def)

lemma repeatingPattern_no_terminator:
  assumes "\<not> list_ex is_line_terminator p"
  shows "repeatingPattern p \<longleftrightarrow> list_ex (\<lambda>c. sublist [c, c, c] p) p"
proof -
  have d: "dot c" if "c \<in> set p" for c
    using assms that by (auto simp: dot_def list_ex_iff)
  show ?thesis
  proof
    assume "repeatingPattern p"
    then obtain c where "sublist [c, c, c] p" by (auto simp: repeatingPattern_iff)
    moreover from this have "c \<in> set p" by (rule sublist_triple_in_set)
    ultimately show "list_ex (\<lambda>c. sublist [c, c, c] p) p" by (auto simp: list_ex_iff)
  next
    assume "list_ex (\<lambda>c. sublist [c, c, c] p) p"
    then obtain c where "c \<in> set p" "sublist [c, c, c] p" by (auto simp: list_ex_iff)
    then have "dot c \<and> sublist [c, c, c] p" using d by simp
    then show "repeatingPattern p" unfolding repeatingPattern_iff by (rule exI)
  qed
qed

lemma lengthRe_no_terminator:
  assumes "\<not> list_ex is_line_terminator p"
  shows "test_whole lengthRe p \<longleftrightarrow> 6 \<le> length p \<and> length p \<le> 20"
  using assms by (auto simp: lengthRe_iff dot_def list_ex_iff list_all_iff)

lemma spec_sequence_table_iff:
  "list_ex P spec_sequence_table \<longleftrightarrow> list_ex P sequence_table \<or> P (js ''vwx'')"
  unfolding spec_sequence_table_def sequence_table_def by (simp only: list.map list_ex_Nil_iff list_ex_Cons_iff) blast

lemma rule_no_sequence_iff:
  "rule_no_sequence p \<longleftrightarrow> \<not> sequentialPattern p \<and> \<not> sublist (js ''vwx'') p"
  by (simp add: rule_no_sequence_def spec_sequence_table_iff sequentialPattern_iff)

lemma rule_no_repeat_imp: "rule_no_repeat p \<Longrightarrow> \<not> repeatingPattern p"
proof
  assume r: "rule_no_repeat p" and "repeatingPattern p"
  then obtain c where c: "sublist [c, c, c] p" by (auto simp: repeatingPattern_iff)
  then have "c \<in> set p" by (rule sublist_triple_in_set)
  with c have "list_ex (\<lambda>c. sublist [c, c, c] p) p" by (auto simp: list_ex_iff)
  with r show False by (simp add: rule_no_repeat_def)
qed

lemma pw_msgs_no_newline:
  "0x0A \<notin> set msg_pw_special" "0x0A \<notin> set msg_pw_sequential" "0x0A \<notin> set msg_pw_repeating"
  "0x0A \<notin> set msg_pw_digit" "0x0A \<notin> set msg_pw_lower" "0x0A \<notin> set msg_pw_upper"
  "0x0A \<notin> set msg_pw_length"
  by (simp_all add: js_def msg_pw_special_def msg_pw_sequential_def msg_pw_repeating_def
      msg_pw_digit_def msg_pw_lower_def msg_pw_upper_def msg_pw_length_def)

lemma first_violation_empty: "first_violation p = [] \<longleftrightarrow> all_rules p"
  by (simp add: first_violation_def all_rules_def pw_msgs_nonempty)

subsection \<open>The checks of the email validator\<close>

lemma domainRe_group_iff:
  "matches_from True domainRe_group d \<longleftrightarrow>
     (\<exists>a b. d = a @ 0x2E # b \<and> a \<noteq> [] \<and> b \<noteq> [] \<and> list_all not_space_at a
        \<and> list_all not_space_at b)"
  unfolding domainRe_group_def matches_from_many1 matches_from_lit matches_from.simps
  by auto

lemma formatRe_iff:
  "test_whole formatRe s \<longleftrightarrow>
     (\<exists>l d. s = l @ 0x40 # d \<and> l \<noteq> [] \<and> list_all not_space_at l
        \<and> matches_from True domainRe_group d)"
  unfolding test_whole_def formatRe_def domainRe_group_def
  by (subst matches_from_many1, subst matches_from_lit) auto

lemma in_set_inner:
  "x \<in> set (butlast (tl d)) \<longleftrightarrow> (\<exists>a b. d = a @ x # b \<and> a \<noteq> [] \<and> b \<noteq> [])"
proof
  assume "x \<in> set (butlast (tl d))"
  then obtain ys zs where yz: "butlast (tl d) = ys @ x # zs"
    by (auto simp: in_set_conv_decomp)
  then have ne: "tl d \<noteq> []" by auto
  then have d: "d = hd d # tl d" by (cases d) auto
  have "tl d = butlast (tl d) @ [last (tl d)]" using ne by simp
  then have "d = (hd d # ys) @ x # (zs @ [last (tl d)])" using d yz
    by (metis append_Cons append_assoc)
  then show "\<exists>a b. d = a @ x # b \<and> a \<noteq> [] \<and> b \<noteq> []" by blast
next
  assume "\<exists>a b. d = a @ x # b \<and> a \<noteq> [] \<and> b \<noteq> []"
  then obtain a b where ab: "d = a @ x # b" "a \<noteq> []" "b \<noteq> []" by blast
  then obtain a0 a' where "a = a0 # a'" by (cases a) auto
  moreover have "b = butlast b @ [last b]" using ab(3) by simp
  ultimately have "butlast (tl d) = a' @ x # butlast b"
    using ab(1,3) by (simp add: butlast_append)
  then show "x \<in> set (butlast (tl d))" by simp
qed

lemma not_space_at_neq_at: "list_all not_space_at l \<Longrightarrow> x \<in> set l \<Longrightarrow> x \<noteq> 0x40"
  by (auto simp: list_all_iff not_space_at_def)

lemma local_part_append:
  "list_all not_space_at l \<Longrightarrow> local_part (l @ 0x40 # d) = l"
  unfolding local_part_def
  by (subst takeWhile_append2) (auto dest: not_space_at_neq_at)

lemma domain_part_append:
  "list_all not_space_at d \<Longrightarrow> domain_part (l @ 0x40 # d) = d"
proof -
  assume "list_all not_space_at d"
  then have "\<forall>x\<in>set (rev d). x \<noteq> 0x40" by (auto simp: list_all_iff not_space_at_def)
  then have "takeWhile (\<lambda>c. c \<noteq> 0x40) (rev d @ 0x40 # rev l) = rev d"
    by (subst takeWhile_append2) auto
  then show ?thesis by (simp add: domain_part_def)
qed

lemma local_part_split:
  "length (local_part s) < length s \<Longrightarrow> s = local_part s @ 0x40 # drop (Suc (length (local_part s))) s"
proof -
  assume a: "length (local_part s) < length s"
  let ?P = "\<lambda>c::jschar. c \<noteq> 0x40"
  have "s = takeWhile ?P s @ dropWhile ?P s" by simp
  moreover have ne: "dropWhile ?P s \<noteq> []"
    using a unfolding local_part_def by (metis calculation append_Nil2 less_irrefl)
  then have "hd (dropWhile ?P s) = 0x40" using hd_dropWhile[of ?P s] by simp
  then have "dropWhile ?P s = 0x40 # tl (dropWhile ?P s)" using ne by (cases "dropWhile ?P s") auto
  moreover have "tl (dropWhile ?P s) = drop (Suc (length (takeWhile ?P s))) s"
    by (simp add: dropWhile_eq_drop drop_Suc tl_drop)
  ultimately show ?thesis unfolding local_part_def by metis
qed

lemma email_shape_iff:
  "email_shape s \<longleftrightarrow>
     (\<exists>l d. s = l @ 0x40 # d \<and> l \<noteq> [] \<and> list_all not_space_at l
        \<and> matches_from True domainRe_group d)"
proof
  assume e: "email_shape s"
  let ?l = "local_part s" and ?d = "drop (Suc (length (local_part s))) s"
  from e have l: "?l \<noteq> []" "length ?l < length s" "list_all not_space_at ?l"
    and d: "list_all not_space_at ?d" "0x2E \<in> set (butlast (tl ?d))"
    by (simp_all add: email_shape_def Let_def)
  from d(2) obtain a b where ab: "?d = a @ 0x2E # b" "a \<noteq> []" "b \<noteq> []"
    unfolding in_set_inner by blast
  then have "list_all not_space_at a \<and> list_all not_space_at b" using d(1) by simp
  then have "matches_from True domainRe_group ?d" using ab unfolding domainRe_group_iff by blast
  moreover have "s = ?l @ 0x40 # ?d" using l(2) by (rule local_part_split)
  ultimately show "\<exists>l d. s = l @ 0x40 # d \<and> l \<noteq> [] \<and> list_all not_space_at l
        \<and> matches_from True domainRe_group d" using l by blast
next
  assume "\<exists>l d. s = l @ 0x40 # d \<and> l \<noteq> [] \<and> list_all not_space_at l
        \<and> matches_from True domainRe_group d"
  then obtain l d where s: "s = l @ 0x40 # d" and l: "l \<noteq> []" "list_all not_space_at l"
    and m: "matches_from True domainRe_group d" by blast
  from m obtain a b where ab: "d = a @ 0x2E # b" "a \<noteq> []" "b \<noteq> []"
      "list_all not_space_at a" "list_all not_space_at b"
    unfolding domainRe_group_iff by blast
  have lp: "local_part s = l" using s l(2) by (simp add: local_part_append)
  have dot: "not_space_at 0x2E" by (simp add: not_space_at_def is_space_def is_line_terminator_def)
  have "list_all not_space_at d" using ab dot by simp
  moreover have "0x2E \<in> set (butlast (tl d))" unfolding in_set_inner using ab by blast
  ultimately show "email_shape s"
    unfolding email_shape_def Let_def lp using s l by simp
qed

lemma split_on_first: "\<exists>ps. split_on d s = takeWhile (\<lambda>c. c \<noteq> d) s # ps"
  by (induction s) (auto split: list.splits)

lemma length_split_on: "length (split_on d s) = Suc (length (filter (\<lambda>c. c = d) s))"
  by (induction s) (auto split: list.splits)

lemma split_on_dot: "x \<in> set g \<Longrightarrow> 2 \<le> length (split_on x g)"
proof -
  assume "x \<in> set g"
  then have "filter (\<lambda>c. c = x) g \<noteq> []" by (auto simp: filter_empty_conv)
  then have "0 < length (filter (\<lambda>c. c = x) g)" by blast
  then show ?thesis unfolding length_split_on by linarith
qed

lemma domainRe_group_dot: "matches_from True domainRe_group g \<Longrightarrow> 0x2E \<in> set g"
  by (auto simp: domainRe_group_iff)

lemma match_domainRe_Some:
  "match_domainRe s = Some g \<Longrightarrow> matches_from True domainRe_group g"
  by (induction s) (auto split: if_splits)

lemma match_domainRe_append:
  "list_all not_space_at l \<Longrightarrow> matches_from True domainRe_group d \<Longrightarrow>
     match_domainRe (l @ 0x40 # d) = Some d"
  by (induction l) (auto simp: not_space_at_def)

lemma domainRe_group_all: "matches_from True domainRe_group d \<Longrightarrow> list_all not_space_at d"
  by (auto simp: domainRe_group_iff not_space_at_def is_space_def is_line_terminator_def)

lemma email_msgs:
  "msg_email_empty \<noteq> []" "msg_email_format \<noteq> []" "msg_email_local \<noteq> []"
  "msg_email_domain \<noteq> []"
  "msg_email_empty \<noteq> msg_email_domain" "msg_email_format \<noteq> msg_email_domain"
  "msg_email_local \<noteq> msg_email_domain"
  by (simp_all add: js_def msg_email_empty_def msg_email_format_def msg_email_local_def
      msg_email_domain_def)

lemma validateEmail_shape:
  assumes "email_shape s"
  shows "validateEmail s = Inr (if length (local_part s) > 64 then msg_email_local else [])"
    and "match_domainRe s = Some (domain_part s)"
    and "2 \<le> length (split_on 0x2E (domain_part s))"
proof -
  from assms obtain l d where s: "s = l @ 0x40 # d" and l: "l \<noteq> []" "list_all not_space_at l"
    and m: "matches_from True domainRe_group d" unfolding email_shape_iff by blast
  have f: "test_whole formatRe s" unfolding formatRe_iff using s l m by blast
  have dp: "domain_part s = d" using s domainRe_group_all[OF m] by (simp add: domain_part_append)
  have "match_domainRe (l @ 0x40 # d) = Some d" using l(2) m by (rule match_domainRe_append)
  then show md: "match_domainRe s = Some (domain_part s)" using dp s by simp
  show len: "2 \<le> length (split_on 0x2E (domain_part s))"
    unfolding dp using domainRe_group_dot[OF m] by (rule split_on_dot)
  obtain ps where ps: "split_on 0x40 s = local_part s # ps"
    using split_on_first[of "0x40" s] unfolding local_part_def by blast
  have "s \<noteq> []" using s by simp
  then show "validateEmail s = Inr (if length (local_part s) > 64 then msg_email_local else [])"
    unfolding validateEmail_def using f md len ps by simp
qed

lemma validateEmail_first_failure: "validateEmail s = Inr (first_email_failure s)"
proof (cases "s = []")
  case True
  then show ?thesis by (simp add: validateEmail_def first_email_failure_def)
next
  case ne: False
  show ?thesis
  proof (cases "email_shape s")
    case True
    then show ?thesis
      using validateEmail_shape[OF True] ne by (simp add: first_email_failure_def)
  next
    case False
    then have "\<not> test_whole formatRe s" unfolding formatRe_iff email_shape_iff .
    then show ?thesis using ne False by (simp add: validateEmail_def first_email_failure_def)
  qed
qed

subsection \<open>The date validator and formatter\<close>

lemma digit_not_space: "is_digit c \<Longrightarrow> \<not> is_space c"
  unfolding is_digit_def is_space_def is_line_terminator_def
  by (auto simp: word_le_nat_alt)

lemma digit_not_sign: "is_digit c \<Longrightarrow> c \<noteq> 0x2D \<and> c \<noteq> 0x2B \<and> c \<noteq> 0x78 \<and> c \<noteq> 0x58"
  unfolding is_digit_def by auto

lemma digit_value_digit: "is_digit c \<Longrightarrow> digit_value c = unat c - 0x30 \<and> digit_value c < 10"
  unfolding digit_value_def is_digit_def
  by (auto simp: word_le_nat_alt)

lemma dropWhile_space_digits:
  "s \<noteq> [] \<Longrightarrow> list_all is_digit s \<Longrightarrow> dropWhile is_space s = s"
  by (cases s) (auto simp: digit_not_space)

lemma trim_digits: "s \<noteq> [] \<Longrightarrow> list_all is_digit s \<Longrightarrow> trim s = s"
proof -
  assume a: "s \<noteq> []" "list_all is_digit s"
  then have "rev s \<noteq> []" "list_all is_digit (rev s)" by (simp_all add: list_all_iff)
  then have "dropWhile is_space (rev s) = rev s" by (rule dropWhile_space_digits)
  then show ?thesis using a by (simp add: trim_def dropWhile_space_digits)
qed

lemma takeWhile_all: "list_all P s \<Longrightarrow> takeWhile P s = s \<and> dropWhile P s = []"
  by (induction s) auto

lemma isNaN_digits: "s \<noteq> [] \<Longrightarrow> list_all is_digit s \<Longrightarrow> \<not> isNaN s"
proof -
  assume a: "s \<noteq> []" "list_all is_digit s"
  then obtain c u where s: "s = c # u" by (cases s) auto
  then have c: "c \<noteq> 0x2B" "c \<noteq> 0x2D" using a(2) digit_not_sign[of c] by auto
  have "unsigned_decimal s"
    using a by (simp add: unsigned_decimal_def Let_def takeWhile_all[OF a(2)])
  then show ?thesis
    using a c s by (simp add: isNaN_def trim_digits)
qed

lemma parseInt_digits:
  assumes "s \<noteq> []" "list_all is_digit s"
  shows "parseInt s = Some (int (decimal s))"
proof -
  obtain c u where s: "s = c # u" using assms(1) by (cases s) auto
  have c: "c \<noteq> 0x2B" "c \<noteq> 0x2D" using s assms(2) digit_not_sign[of c] by auto
  have hex: "\<not> (case s of z # k # _ \<Rightarrow> z = 0x30 \<and> (k = 0x78 \<or> k = 0x58) | _ \<Rightarrow> False)"
    using assms(2) by (auto split: list.splits simp: is_digit_def)
  have "list_all (\<lambda>c. digit_value c < 10) s"
    using assms(2) by (auto simp: list_all_iff dest: digit_value_digit)
  then have Z: "takeWhile (\<lambda>c. digit_value c < 10) s = s" by (simp add: takeWhile_all)
  have "foldl (\<lambda>a c. a * 10 + digit_value c) n s = foldl (\<lambda>a c. 10 * a + (unat c - 0x30)) n s" for n
    using assms(2) by (induction s arbitrary: n) (auto simp: digit_value_digit mult.commute)
  then have v: "foldl (\<lambda>a c. a * 10 + digit_value c) 0 s = decimal s" by (simp add: decimal_def)
  show ?thesis
    unfolding parseInt_def dropWhile_space_digits[OF assms] Let_def
    using hex c s Z v assms(1) by (simp split: list.splits)
qed

lemma split_on_none: "d \<notin> set u \<Longrightarrow> split_on d u = [u]"
  by (induction u) auto

lemma split_on_append: "d \<notin> set u \<Longrightarrow> split_on d (u @ d # v) = u # split_on d v"
  by (induction u) auto

lemma digits_no_hyphen: "list_all is_digit u \<Longrightarrow> 0x2D \<notin> set u"
  using digit_not_sign by (auto simp: list_all_iff)

lemma dateRe_iff:
  "test_whole dateRe d \<longleftrightarrow>
     (\<exists>y m dd. d = y @ 0x2D # m @ 0x2D # dd \<and> length y = 4 \<and> length m = 2 \<and> length dd = 2
        \<and> list_all is_digit y \<and> list_all is_digit m \<and> list_all is_digit dd)"
proof
  assume "test_whole dateRe d"
  then show "\<exists>y m dd. d = y @ 0x2D # m @ 0x2D # dd \<and> length y = 4 \<and> length m = 2
        \<and> length dd = 2 \<and> list_all is_digit y \<and> list_all is_digit m \<and> list_all is_digit dd"
    unfolding test_whole_def dateRe_def matches_from_exactly matches_from_lit matches_from.simps
    by auto
next
  assume "\<exists>y m dd. d = y @ 0x2D # m @ 0x2D # dd \<and> length y = 4 \<and> length m = 2
        \<and> length dd = 2 \<and> list_all is_digit y \<and> list_all is_digit m \<and> list_all is_digit dd"
  then obtain y m dd where d: "d = y @ 0x2D # m @ 0x2D # dd"
    and len: "length y = 4" "length m = 2" "length dd = 2"
    and dig: "list_all is_digit y" "list_all is_digit m" "list_all is_digit dd"
    by blast
  have "matches_from True [exactly 2 is_digit] dd"
    unfolding matches_from_exactly using len dig by simp
  then have "matches_from True [lit 0x2D, exactly 2 is_digit] (0x2D # dd)"
    unfolding matches_from_lit by simp
  then have "matches_from True [exactly 2 is_digit, lit 0x2D, exactly 2 is_digit] (m @ 0x2D # dd)"
    using len dig by (subst matches_from_exactly) blast
  then have "matches_from True [lit 0x2D, exactly 2 is_digit, lit 0x2D, exactly 2 is_digit]
      (0x2D # m @ 0x2D # dd)"
    by (subst matches_from_lit) simp
  then show "test_whole dateRe d"
    unfolding test_whole_def dateRe_def d using len dig by (subst matches_from_exactly) blast
qed

lemma date_shape_iff:
  "date_shape d \<longleftrightarrow>
     (\<exists>y m dd. d = y @ 0x2D # m @ 0x2D # dd \<and> length y = 4 \<and> length m = 2 \<and> length dd = 2
        \<and> list_all is_digit y \<and> list_all is_digit m \<and> list_all is_digit dd)"
proof
  assume s: "date_shape d"
  then have len: "length d = 10" by (simp add: date_shape_def)
  have "d = take 4 d @ drop 4 d" by (rule append_take_drop_id[symmetric])
  also have "drop 4 d = d ! 4 # drop 5 d" using len Cons_nth_drop_Suc[of 4 d] by simp
  also have "drop 5 d = take 2 (drop 5 d) @ drop 2 (drop 5 d)"
    by (rule append_take_drop_id[symmetric])
  also have "drop 2 (drop 5 d) = d ! 7 # drop 8 d" using len Cons_nth_drop_Suc[of 7 d] by simp
  finally have "d = take 4 d @ 0x2D # take 2 (drop 5 d) @ 0x2D # drop 8 d"
    using s by (simp add: date_shape_def)
  moreover have "length (take 4 d) = 4 \<and> length (take 2 (drop 5 d)) = 2 \<and> length (drop 8 d) = 2"
    using len by simp
  ultimately show "\<exists>y m dd. d = y @ 0x2D # m @ 0x2D # dd \<and> length y = 4 \<and> length m = 2
        \<and> length dd = 2 \<and> list_all is_digit y \<and> list_all is_digit m \<and> list_all is_digit dd"
    using s unfolding date_shape_def by blast
next
  assume "\<exists>y m dd. d = y @ 0x2D # m @ 0x2D # dd \<and> length y = 4 \<and> length m = 2
        \<and> length dd = 2 \<and> list_all is_digit y \<and> list_all is_digit m \<and> list_all is_digit dd"
  then show "date_shape d"
    by (auto simp: date_shape_def nth_append)
qed

lemma validateDateFormat_iff: "validateDateFormat d \<longleftrightarrow> date_shape d"
  by (simp add: validateDateFormat_def dateRe_iff date_shape_iff)

lemma formatDate_parts:
  assumes "length y = 4" "length m = 2" "length dd = 2"
    and "list_all is_digit y" "list_all is_digit m" "list_all is_digit dd"
  shows "formatDate (y @ 0x2D # m @ 0x2D # dd) =
     Inr (if decimal m < 1 \<or> 12 < decimal m \<or> decimal dd < 1 \<or> 31 < decimal dd
          then msg_date_components else y @ 0x2D # m @ 0x2D # dd)"
proof -
  let ?d = "y @ 0x2D # m @ 0x2D # dd"
  have v: "validateDateFormat ?d"
    unfolding validateDateFormat_def dateRe_iff using assms by blast
  have sp: "split_on 0x2D ?d = [y, m, dd]"
    using assms(4-6) by (simp add: split_on_append split_on_none digits_no_hyphen)
  have ne: "y \<noteq> []" "m \<noteq> []" "dd \<noteq> []" using assms(1-3) by auto
  have pad: "padStart 4 0x30 y = y" "padStart 2 0x30 m = m" "padStart 2 0x30 dd = dd"
    using assms(1-3) by (simp_all add: padStart_def)
  have nan: "\<not> isNaN y" "\<not> isNaN m" "\<not> isNaN dd"
    using ne assms(4-6) by (simp_all add: isNaN_digits)
  have pi: "parseInt m = Some (int (decimal m))" "parseInt dd = Some (int (decimal dd))"
    using ne assms(5,6) by (simp_all add: parseInt_digits)
  show ?thesis
    unfolding formatDate_def sp using v
    by (simp add: pad nan pi num_less_def num_greater_def Let_def)
qed

lemma date_msgs: "length msg_date_components = 49" "length msg_date_format = 36"
  by (simp_all add: msg_date_components_def msg_date_format_def js_def)

lemma formatDate_shape:
  assumes "date_shape d"
  shows "formatDate d = Inr (if out_of_range d then msg_date_components else d)"
    and "\<not> not_numeric d"
    and "reassembled d = d"
proof -
  from assms obtain y m dd where d: "d = y @ 0x2D # m @ 0x2D # dd"
    and len: "length y = 4" "length m = 2" "length dd = 2"
    and dig: "list_all is_digit y" "list_all is_digit m" "list_all is_digit dd"
    unfolding date_shape_iff by blast
  have parts: "year_of d = y" "month_of d = m" "day_of d = dd"
    using d len by (simp_all add: year_of_def month_of_def day_of_def)
  show "formatDate d = Inr (if out_of_range d then msg_date_components else d)"
    unfolding out_of_range_def parts unfolding d
    using len dig by (rule formatDate_parts)
  have ne: "y \<noteq> []" "m \<noteq> []" "dd \<noteq> []" using len by auto
  show "\<not> not_numeric d"
    unfolding not_numeric_def parts using len ne dig by (simp add: padStart_def isNaN_digits)
  show "reassembled d = d"
    unfolding reassembled_def parts using d len by (simp add: padStart_def)
qed

subsection \<open>The phone and name formatters\<close>

lemma phoneRe_iff: "matches_from False phoneRe s \<longleftrightarrow> digit_window s 0"
proof
  assume "matches_from False phoneRe s"
  then obtain a b c v where "s = a @ b @ c @ v" "length a = 3" "length b = 3" "length c = 4"
      "list_all is_digit a" "list_all is_digit b" "list_all is_digit c"
    unfolding phoneRe_def matches_from_exactly by auto
  then show "digit_window s 0" by (simp add: digit_window_def)
next
  assume "digit_window s 0"
  then have len: "10 \<le> length s" and dig: "list_all is_digit (take 10 s)"
    by (simp_all add: digit_window_def)
  let ?a = "take 3 s" and ?b = "take 3 (drop 3 s)" and ?c = "take 4 (drop 6 s)"
  have "take 10 s = ?a @ take 7 (drop 3 s)" using take_add[of 3 7 s] by simp
  moreover have "take 7 (drop 3 s) = ?b @ ?c" using take_add[of 3 4 "drop 3 s"] by simp
  ultimately have t: "take 10 s = ?a @ ?b @ ?c" by simp
  then have d: "list_all is_digit ?a" "list_all is_digit ?b" "list_all is_digit ?c"
    using dig by simp_all
  have s: "s = ?a @ ?b @ ?c @ drop 10 s"
    using t by (metis append_assoc append_take_drop_id)
  have 3: "matches_from False [exactly 4 is_digit] (?c @ drop 10 s)"
    unfolding matches_from_exactly using len d(3) by (intro exI[of _ ?c] exI[of _ "drop 10 s"]) simp
  have 2: "matches_from False [exactly 3 is_digit, exactly 4 is_digit] (?b @ ?c @ drop 10 s)"
    apply (subst matches_from_exactly)
    using len d(2) 3 by (intro exI[of _ ?b] exI[of _ "?c @ drop 10 s"]) simp
  have "matches_from False phoneRe (?a @ ?b @ ?c @ drop 10 s)"
    unfolding phoneRe_def
    apply (subst matches_from_exactly)
    using len d(1) 2 by (intro exI[of _ ?a] exI[of _ "?b @ ?c @ drop 10 s"]) simp
  then show "matches_from False phoneRe s" using s by simp
qed

lemma digit_window_Cons: "digit_window (c # cs) (Suc i) = digit_window cs i"
  by (simp add: digit_window_def add.commute)

lemma formatPhoneNumber_unchanged:
  "(\<And>i. \<not> digit_window s i) \<Longrightarrow> formatPhoneNumber s = s"
proof (induction s)
  case Nil
  then show ?case by simp
next
  case (Cons c cs)
  have "\<not> digit_window cs i" for i using Cons.prems[of "Suc i"] by (simp add: digit_window_Cons)
  then have "formatPhoneNumber cs = cs" by (rule Cons.IH)
  then show ?case using Cons.prems[of 0] by (simp add: phoneRe_iff)
qed

lemma formatPhoneNumber_first:
  "digit_window s i \<Longrightarrow> (\<And>j. j < i \<Longrightarrow> \<not> digit_window s j) \<Longrightarrow>
     formatPhoneNumber s = take i s @ phone_replacement (take 10 (drop i s)) @ drop (i + 10) s"
proof (induction s arbitrary: i)
  case Nil
  then show ?case by (simp add: digit_window_def)
next
  case (Cons c cs)
  show ?case
  proof (cases i)
    case 0
    then show ?thesis using Cons.prems(1) by (simp add: phoneRe_iff)
  next
    case (Suc k)
    have w: "digit_window cs k" using Cons.prems(1) Suc by (simp add: digit_window_Cons)
    have n: "\<not> digit_window cs j" if "j < k" for j
      using Cons.prems(2)[of "Suc j"] that Suc by (simp add: digit_window_Cons)
    have z: "\<not> digit_window (c # cs) 0" using Cons.prems(2)[of 0] Suc by simp
    have "i + 10 = Suc (k + 10)" using Suc by simp
    then have "drop (i + 10) (c # cs) = drop (k + 10) cs" by (simp only: drop_Suc_Cons)
    moreover have "take 10 (drop i (c # cs)) = take 10 (drop k cs)" using Suc by simp
    moreover have "take i (c # cs) = c # take k cs" using Suc by simp
    moreover have "formatPhoneNumber (c # cs) = c # formatPhoneNumber cs"
      using z by (simp add: phoneRe_iff)
    ultimately show ?thesis using Cons.IH[OF w n] by simp
  qed
qed

lemma capitalize_from_length: "length (capitalize_from prev s) = length s"
  by (induction s arbitrary: prev) auto

lemma capitalize_from_nth:
  "i < length s \<Longrightarrow>
     capitalize_from prev s ! i =
       (if is_word (s ! i) \<and> \<not> (if i = 0 then prev else is_word (s ! (i - 1)))
        then toUpperCase (s ! i) else s ! i)"
proof (induction s arbitrary: prev i)
  case Nil
  then show ?case by simp
next
  case (Cons c cs)
  show ?case
  proof (cases i)
    case 0
    then show ?thesis by simp
  next
    case (Suc k)
    then have "k < length cs" using Cons.prems by simp
    from Cons.IH[OF this, of "is_word c"] show ?thesis
      using Suc by (cases k) auto
  qed
qed

lemma phone_replacement_window:
  "phone_replacement (take 10 (drop i s)) =
     js ''('' @ take 3 (drop i s) @ js '') '' @ take 3 (drop (i + 3) s) @ js ''-''
       @ take 4 (drop (i + 6) s)"
  by (simp add: phone_replacement_def drop_take add.commute)

lemma formatPhoneNumber_changed:
  assumes "digit_window s k"
  shows "formatPhoneNumber s \<noteq> s"
proof -
  define i where "i = (LEAST n. digit_window s n)"
  have w: "digit_window s i" unfolding i_def using assms by (rule LeastI)
  have n: "\<not> digit_window s j" if "j < i" for j
    using that unfolding i_def by (rule not_less_Least)
  have r: "formatPhoneNumber s =
      take i s @ phone_replacement (take 10 (drop i s)) @ drop (i + 10) s"
    using w n by (rule formatPhoneNumber_first)
  from w have len: "i + 10 \<le> length s" and dig: "list_all is_digit (take 10 (drop i s))"
    by (simp_all add: digit_window_def)
  have "0 < length (take 10 (drop i s))" using len by simp
  then have "take 10 (drop i s) ! 0 \<in> set (take 10 (drop i s))" by (rule nth_mem)
  moreover have "take 10 (drop i s) ! 0 = s ! i" using len by simp
  ultimately have "i < length s" "is_digit (s ! i)"
    using len dig by (auto simp: list_all_iff)
  show ?thesis
  proof
    assume "formatPhoneNumber s = s"
    then have "take i s @ phone_replacement (take 10 (drop i s)) @ drop (i + 10) s
        = take i s @ drop i s" using r by (simp only: append_take_drop_id)
    then have "phone_replacement (take 10 (drop i s)) @ drop (i + 10) s = drop i s"
      by (simp only: same_append_eq)
    moreover have "hd (phone_replacement m @ y) = 0x28" for m y
      by (simp add: phone_replacement_def js_def)
    ultimately have "hd (drop i s) = 0x28" by metis
    then have "s ! i = 0x28" using \<open>i < length s\<close> by (simp add: hd_drop_conv_nth)
    then show False using \<open>is_digit (s ! i)\<close> by (simp add: is_digit_def)
  qed
qed

subsection \<open>Claims\<close>

text \<open>
  C8. \<open>validateRequired\<close> returns false exactly for an absent value (\<^verbatim>\<open>undefined\<close> or
  \<^verbatim>\<open>null\<close>) and for the empty string, and true for everything else; nothing is trimmed,
  so the empty string gives false and three spaces give true.
\<close>

theorem validateRequired_spec:
  "(validateRequired v = False \<longleftrightarrow> (v = Undefined \<or> v = Null \<or> v = JString []))
   \<and> (validateRequired v = True \<longleftrightarrow> \<not> (v = Undefined \<or> v = Null \<or> v = JString []))
   \<and> validateRequired (JString (js '''') :: 'a jsval) = False
   \<and> validateRequired (JString (js ''   '') :: 'a jsval) = True"
  by (simp add: validateRequired_def js_def)

text \<open>
  Where code and rules agree. For a password with no line terminator (LF, CR, U+2028,
  U+2029) and without the run \<^verbatim>\<open>vwx\<close>, \<open>checkPasswordStrength\<close> returns the empty string
  exactly when the seven rules hold together, and otherwise the message of the first
  rule, in the listed order, that the password violates.
\<close>

lemma checkPasswordStrength_agrees:
  assumes "\<not> list_ex is_line_terminator p" and "\<not> sublist (js ''vwx'') p"
  shows "(checkPasswordStrength p = [] \<longleftrightarrow> all_rules p)
     \<and> checkPasswordStrength p = first_violation p"
proof -
  have s: "rule_no_sequence p \<longleftrightarrow> \<not> sequentialPattern p"
    using assms(2) by (simp add: rule_no_sequence_iff)
  have "checkPasswordStrength p = first_violation p"
    unfolding checkPasswordStrength_def first_violation_def s
      rule_special_def rule_no_repeat_def rule_digit_def rule_lower_def
      rule_upper_def rule_length_def specialCharCount_def lookahead_any_iff
      repeatingPattern_no_terminator[OF assms(1)] lengthRe_no_terminator[OF assms(1)]
    by (simp add: not_less not_le)
  then show ?thesis by (simp add: first_violation_empty)
qed

text \<open>
  C1 fails on the code at two inputs. The seven code units \<^verbatim>\<open>aB1!\<close>, LF, \<^verbatim>\<open>!x\<close> satisfy
  all seven rules, and \<open>checkPasswordStrength\<close> answers with the message that the
  password must be between 6 and 20 characters long: the \<^verbatim>\<open>.\<close> of the length pattern
  matches no line terminator. The password \<^verbatim>\<open>vwx!!A1\<close> contains the ascending run
  \<^verbatim>\<open>vwx\<close>, so the first rule it violates is the second one, and \<open>checkPasswordStrength\<close>
  returns the empty string: the alternation of \<^verbatim>\<open>sequentialPattern\<close> goes from \<^verbatim>\<open>uvw\<close>
  to \<^verbatim>\<open>wxy\<close>.
\<close>

theorem checkPasswordStrength_failing_inputs:
  "all_rules [0x61, 0x42, 0x31, 0x21, 0x0A, 0x21, 0x78]
   \<and> first_violation [0x61, 0x42, 0x31, 0x21, 0x0A, 0x21, 0x78] = []
   \<and> length [0x61, 0x42, 0x31, 0x21, 0x0A, 0x21, 0x78 :: jschar] = 7
   \<and> checkPasswordStrength [0x61, 0x42, 0x31, 0x21, 0x0A, 0x21, 0x78] = msg_pw_length
   \<and> checkPasswordStrength [0x61, 0x42, 0x31, 0x21, 0x0A, 0x21, 0x78] \<noteq> []
   \<and> sublist (js ''vwx'') (js ''vwx!!A1'')
   \<and> \<not> rule_no_sequence (js ''vwx!!A1'')
   \<and> first_violation (js ''vwx!!A1'') = msg_pw_sequential
   \<and> msg_pw_sequential \<noteq> []
   \<and> checkPasswordStrength (js ''vwx!!A1'') = []"
proof -
  have "all_rules [0x61, 0x42, 0x31, 0x21, 0x0A, 0x21, 0x78]" by code_simp
  moreover have "checkPasswordStrength [0x61, 0x42, 0x31, 0x21, 0x0A, 0x21, 0x78] = msg_pw_length"
    by code_simp
  moreover have "sublist (js ''vwx'') (js ''vwx!!A1'')" by code_simp
  moreover have "\<not> rule_no_sequence (js ''vwx!!A1'')" by code_simp
  moreover have "first_violation (js ''vwx!!A1'') = msg_pw_sequential" by code_simp
  moreover have "checkPasswordStrength (js ''vwx!!A1'') = []" by code_simp
  ultimately show ?thesis by (simp add: pw_msgs_nonempty first_violation_empty)
qed

text \<open>
  C10. A password that contains a newline never passes. The pattern of the length check
  does not match it, so \<open>checkPasswordStrength\<close> returns one of its seven error
  messages, none of which is empty, whatever the length of the password; when the
  password satisfies all seven rules, the message is the one of the length check.
\<close>

theorem newline_never_valid:
  assumes "0x0A \<in> set p"
  shows "\<not> test_whole lengthRe p
     \<and> (checkPasswordStrength p = msg_pw_special \<or> checkPasswordStrength p = msg_pw_sequential
        \<or> checkPasswordStrength p = msg_pw_repeating \<or> checkPasswordStrength p = msg_pw_digit
        \<or> checkPasswordStrength p = msg_pw_lower \<or> checkPasswordStrength p = msg_pw_upper
        \<or> checkPasswordStrength p = msg_pw_length)
     \<and> checkPasswordStrength p \<noteq> []
     \<and> checkPasswordStrength p \<noteq> p
     \<and> (all_rules p \<longrightarrow> checkPasswordStrength p = msg_pw_length)"
proof -
  have "\<not> list_all dot p"
    using assms by (auto simp: list_all_iff dot_def is_line_terminator_def)
  then have n: "\<not> test_whole lengthRe p" by (simp add: lengthRe_iff)
  then have m: "checkPasswordStrength p = msg_pw_special
      \<or> checkPasswordStrength p = msg_pw_sequential
      \<or> checkPasswordStrength p = msg_pw_repeating \<or> checkPasswordStrength p = msg_pw_digit
      \<or> checkPasswordStrength p = msg_pw_lower \<or> checkPasswordStrength p = msg_pw_upper
      \<or> checkPasswordStrength p = msg_pw_length"
    by (simp add: checkPasswordStrength_def)
  then have e: "checkPasswordStrength p \<noteq> []" using pw_msgs_nonempty by auto
  have "0x0A \<notin> set (checkPasswordStrength p)" using m pw_msgs_no_newline by auto
  then have q: "checkPasswordStrength p \<noteq> p" using assms by auto
  have a: "checkPasswordStrength p = msg_pw_length" if r: "all_rules p"
  proof -
    from r have "\<not> sequentialPattern p" "\<not> repeatingPattern p"
      by (simp_all add: all_rules_def rule_no_sequence_iff rule_no_repeat_imp)
    moreover from r have "\<not> specialCharCount p < 2" "lookahead_any is_digit p"
        "lookahead_any is_lower p" "lookahead_any is_upper p"
      by (simp_all add: all_rules_def rule_special_def specialCharCount_def rule_digit_def
          rule_lower_def rule_upper_def lookahead_any_iff)
    ultimately show ?thesis using n by (simp add: checkPasswordStrength_def)
  qed
  show ?thesis using n m e q a by blast
qed

text \<open>
  C10, witness: seven code units with a newline among them that satisfy all seven rules,
  answered with the message of the length check.
\<close>

theorem newline_never_valid_witness:
  "0x0A \<in> set [0x41, 0x62, 0x37, 0x23, 0x0A, 0x23, 0x7A :: jschar]
   \<and> all_rules [0x41, 0x62, 0x37, 0x23, 0x0A, 0x23, 0x7A]
   \<and> \<not> test_whole lengthRe [0x41, 0x62, 0x37, 0x23, 0x0A, 0x23, 0x7A]
   \<and> checkPasswordStrength [0x41, 0x62, 0x37, 0x23, 0x0A, 0x23, 0x7A] = msg_pw_length
   \<and> checkPasswordStrength [0x41, 0x62, 0x37, 0x23, 0x0A, 0x23, 0x7A] \<noteq> []"
proof -
  have a: "0x0A \<in> set [0x41, 0x62, 0x37, 0x23, 0x0A, 0x23, 0x7A :: jschar]" by simp
  have b: "all_rules [0x41, 0x62, 0x37, 0x23, 0x0A, 0x23, 0x7A]" by code_simp
  show ?thesis using newline_never_valid[OF a] a b by blast
qed

text \<open>
  C3, counterexample: \<^verbatim>\<open>abcd!!\<close> contains the run \<^verbatim>\<open>abcd\<close> and two special characters,
  and it is answered with the sequential-characters message.
\<close>

theorem abcd_counterexample:
  "sublist (js ''abcd'') (js ''abcd!!'')
   \<and> 2 \<le> specialCharCount (js ''abcd!!'')
   \<and> checkPasswordStrength (js ''abcd!!'') = msg_pw_sequential"
  by code_simp

text \<open>
  C3, as amended. The sequential-run rule is a literal substring match against the fixed
  table, and the table's entry \<^verbatim>\<open>abc\<close> is a substring of \<^verbatim>\<open>abcd\<close>: every password that
  contains \<^verbatim>\<open>abcd\<close> and at least two characters outside \<^verbatim>\<open>[A-Za-z0-9]\<close> is answered with
  the sequential-characters message.
\<close>

theorem abcd_flagged:
  assumes "sublist (js ''abcd'') p" and "2 \<le> specialCharCount p"
  shows "(sequentialPattern p \<longleftrightarrow> list_ex (\<lambda>w. sublist w p) sequence_table)
     \<and> checkPasswordStrength p = msg_pw_sequential"
proof -
  have "sublist (js ''abc'') (js ''abcd'')" by code_simp
  then have "sublist (js ''abc'') p" using assms(1) by (rule sublist_order.order_trans)
  moreover have "js ''abc'' \<in> set sequence_table" by (simp add: sequence_table_def)
  ultimately have "sequentialPattern p"
    unfolding sequentialPattern_iff list_ex_iff by blast
  then show ?thesis
    using assms(2) by (simp add: checkPasswordStrength_def sequentialPattern_iff)
qed

text \<open>C3, witness.\<close>

theorem abcd_flagged_witness:
  "sublist (js ''abcd'') (js ''#abcd#X9'')
   \<and> 2 \<le> specialCharCount (js ''#abcd#X9'')
   \<and> checkPasswordStrength (js ''#abcd#X9'') = msg_pw_sequential"
proof -
  have a: "sublist (js ''abcd'') (js ''#abcd#X9'')" by code_simp
  have b: "2 \<le> specialCharCount (js ''#abcd#X9'')" by code_simp
  show ?thesis using abcd_flagged[OF a b] a b by simp
qed

text \<open>
  C2, counterexample. In \<^verbatim>\<open>a@b c.d\<close> and in \<^verbatim>\<open>a@b@c.com\<close> the part before the first \<^verbatim>\<open>@\<close> is
  non-empty, free of whitespace and at most 64 long, and the part after the last \<^verbatim>\<open>@\<close> has
  two dot-separated labels; \<open>validateEmail\<close> answers both with the invalid-format message.
\<close>

theorem validateEmail_counterexample:
  "spec_email_valid (js ''a@b c.d'')
   \<and> validateEmail (js ''a@b c.d'') = Inr msg_email_format
   \<and> spec_email_valid (js ''a@b@c.com'')
   \<and> validateEmail (js ''a@b@c.com'') = Inr msg_email_format
   \<and> msg_email_format \<noteq> []"
proof -
  have "spec_email_valid (js ''a@b c.d'')" by code_simp
  moreover have "validateEmail (js ''a@b c.d'') = Inr msg_email_format" by code_simp
  moreover have "spec_email_valid (js ''a@b@c.com'')" by code_simp
  moreover have "validateEmail (js ''a@b@c.com'') = Inr msg_email_format" by code_simp
  ultimately show ?thesis by (simp add: email_msgs)
qed

text \<open>
  C2, as amended. \<open>validateEmail\<close> returns the empty string exactly for a string
  \<open>l @ a . b\<close> in which \<open>l\<close>, \<open>a\<close> and \<open>b\<close> are non-empty and hold neither whitespace nor
  \<^verbatim>\<open>@\<close>, with \<open>l\<close> at most 64 code units long. In every other case it returns the message
  of the first failing check, in the order: empty input, overall format, domain shape,
  length of the local part.
\<close>

theorem validateEmail_spec:
  "(validateEmail s = Inr [] \<longleftrightarrow> email_shape s \<and> length (local_part s) \<le> 64)
   \<and> (email_shape s \<longleftrightarrow>
        (\<exists>l a b. s = l @ [0x40] @ a @ [0x2E] @ b \<and> l \<noteq> [] \<and> a \<noteq> [] \<and> b \<noteq> []
           \<and> list_all not_space_at (l @ a @ b)))
   \<and> validateEmail s = Inr (first_email_failure s)"
proof -
  have 1: "validateEmail s = Inr [] \<longleftrightarrow> email_shape s \<and> length (local_part s) \<le> 64"
  proof (cases "email_shape s")
    case True
    show ?thesis using validateEmail_shape(1)[OF True] True by (simp add: email_msgs)
  next
    case False
    then show ?thesis
      unfolding validateEmail_first_failure by (simp add: first_email_failure_def email_msgs)
  qed
  have 2: "email_shape s \<longleftrightarrow>
        (\<exists>l a b. s = l @ [0x40] @ a @ [0x2E] @ b \<and> l \<noteq> [] \<and> a \<noteq> [] \<and> b \<noteq> []
           \<and> list_all not_space_at (l @ a @ b))"
    unfolding email_shape_iff domainRe_group_iff by auto
  show ?thesis using 1 2 validateEmail_first_failure by blast
qed

text \<open>
  C2, witness: an address that is accepted and one with no dot in its domain.
\<close>

theorem validateEmail_spec_witness:
  "validateEmail (js ''john@example.com'') = Inr []
   \<and> email_shape (js ''john@example.com'')
   \<and> length (local_part (js ''john@example.com'')) \<le> 64
   \<and> first_email_failure (js ''john@example.com'') = []
   \<and> validateEmail (js ''john@example'') = Inr msg_email_format
   \<and> first_email_failure (js ''john@example'') = msg_email_format"
proof -
  have a: "validateEmail (js ''john@example.com'') = Inr []" by code_simp
  have b: "validateEmail (js ''john@example'') = Inr msg_email_format" by code_simp
  show ?thesis
    using validateEmail_spec[of "js ''john@example.com''"] validateEmail_spec[of "js ''john@example''"]
      a b by simp
qed

text \<open>
  C9. The invalid-domain branch of \<open>validateEmail\<close> is dead: a domain captured by
  \<^verbatim>\<open>domainRe\<close> contains a dot, so it splits into two parts or more; \<open>validateEmail\<close>
  never returns the invalid-domain message, and every result is the empty-input, the
  invalid-format or the local-part message, or the empty string.
\<close>

theorem invalid_domain_unreachable:
  "(case match_domainRe s of Some g \<Rightarrow> 2 \<le> length (split_on 0x2E g) | None \<Rightarrow> True)
   \<and> validateEmail s \<noteq> Inr msg_email_domain
   \<and> (validateEmail s = Inr msg_email_empty \<or> validateEmail s = Inr msg_email_format
      \<or> validateEmail s = Inr msg_email_local \<or> validateEmail s = Inr [])"
proof -
  have g: "case match_domainRe s of Some g \<Rightarrow> 2 \<le> length (split_on 0x2E g) | None \<Rightarrow> True"
    by (auto split: option.splits
        intro!: split_on_dot domainRe_group_dot match_domainRe_Some)
  then have c: "\<not> (case match_domainRe s of Some g \<Rightarrow> length (split_on 0x2E g) < 2
      | None \<Rightarrow> False)"
    by (auto split: option.splits)
  obtain ps where ps: "split_on 0x40 s = takeWhile (\<lambda>c. c \<noteq> 0x40) s # ps"
    using split_on_first[of "0x40" s] by blast
  have v: "validateEmail s = Inr msg_email_empty \<or> validateEmail s = Inr msg_email_format
      \<or> validateEmail s = Inr msg_email_local \<or> validateEmail s = Inr []"
    unfolding validateEmail_def using c ps by simp
  then have "validateEmail s \<noteq> Inr msg_email_domain"
    using email_msgs by auto
  then show ?thesis using g v by blast
qed

text \<open>
  C9, witness: the domain captured from \<^verbatim>\<open>john@example.com\<close> and its two parts.
\<close>

theorem invalid_domain_unreachable_witness:
  "match_domainRe (js ''john@example.com'') = Some (js ''example.com'')
   \<and> 2 \<le> length (split_on 0x2E (js ''example.com''))
   \<and> validateEmail (js ''john@example.com'') \<noteq> Inr msg_email_domain"
proof -
  have a: "match_domainRe (js ''john@example.com'') = Some (js ''example.com'')" by code_simp
  show ?thesis using invalid_domain_unreachable[of "js ''john@example.com''"] a by simp
qed

text \<open>
  C6. The date-format validator accepts exactly the shape of four digits, a hyphen, two
  digits, a hyphen and two digits. \<open>formatDate\<close> returns the invalid-format message for
  a string that fails the validator; for one that passes, it returns the
  invalid-components message exactly when a padded component is not numeric, the month
  is outside 1 to 12 or the day is outside 1 to 31, and otherwise the reassembled
  zero-padded string. It never throws. The month 13 of \<^verbatim>\<open>2024-13-05\<close> gives the
  invalid-components message.
\<close>

theorem formatDate_spec:
  "(validateDateFormat d \<longleftrightarrow> date_shape d)
   \<and> (\<not> validateDateFormat d \<longrightarrow> formatDate d = Inr msg_date_format)
   \<and> (validateDateFormat d \<longrightarrow>
        (formatDate d = Inr msg_date_components \<longleftrightarrow> not_numeric d \<or> out_of_range d))
   \<and> (validateDateFormat d \<and> \<not> (not_numeric d \<or> out_of_range d) \<longrightarrow>
        formatDate d = Inr (reassembled d))
   \<and> formatDate (js ''2024-13-05'') = Inr msg_date_components"
proof -
  have 1: "\<not> validateDateFormat d \<Longrightarrow> formatDate d = Inr msg_date_format"
    by (simp add: formatDate_def)
  have 2: "formatDate d = Inr msg_date_components \<longleftrightarrow> not_numeric d \<or> out_of_range d"
    and 3: "\<not> (not_numeric d \<or> out_of_range d) \<Longrightarrow> formatDate d = Inr (reassembled d)"
    if v: "validateDateFormat d"
  proof -
    have s: "date_shape d" using v by (simp add: validateDateFormat_iff)
    then have "length d = 10" by (simp add: date_shape_def)
    then have ne: "d \<noteq> msg_date_components" using date_msgs(1) by auto
    show "formatDate d = Inr msg_date_components \<longleftrightarrow> not_numeric d \<or> out_of_range d"
      using formatDate_shape(1,2)[OF s] ne by auto
    show "\<not> (not_numeric d \<or> out_of_range d) \<Longrightarrow> formatDate d = Inr (reassembled d)"
      using formatDate_shape(1,3)[OF s] by simp
  qed
  have 4: "formatDate (js ''2024-13-05'') = Inr msg_date_components" by code_simp
  show ?thesis using 1 2 3 4 validateDateFormat_iff by blast
qed

text \<open>
  C6, witness: a string of the wrong shape, a date that passes (the day bound is a flat
  31, whatever the month) and a day out of range.
\<close>

theorem formatDate_spec_witness:
  "\<not> validateDateFormat (js ''2024-3-5'')
   \<and> formatDate (js ''2024-3-5'') = Inr msg_date_format
   \<and> validateDateFormat (js ''2024-02-31'')
   \<and> \<not> not_numeric (js ''2024-02-31'') \<and> \<not> out_of_range (js ''2024-02-31'')
   \<and> formatDate (js ''2024-02-31'') = Inr (reassembled (js ''2024-02-31''))
   \<and> validateDateFormat (js ''2024-02-32'')
   \<and> out_of_range (js ''2024-02-32'')
   \<and> formatDate (js ''2024-02-32'') = Inr msg_date_components"
proof -
  have a: "\<not> validateDateFormat (js ''2024-3-5'')" by code_simp
  have b: "validateDateFormat (js ''2024-02-31'')" by code_simp
  have c: "\<not> not_numeric (js ''2024-02-31'')" "\<not> out_of_range (js ''2024-02-31'')"
    by code_simp+
  have d: "validateDateFormat (js ''2024-02-32'')" by code_simp
  have e: "out_of_range (js ''2024-02-32'')" by code_simp
  show ?thesis
    using formatDate_spec[of "js ''2024-3-5''"] formatDate_spec[of "js ''2024-02-31''"]
      formatDate_spec[of "js ''2024-02-32''"] a b c d e by simp
qed

text \<open>
  C7. On a string that passes the date-format validator, with its month within 1 to 12
  and its day within 1 to 31, \<open>formatDate\<close> returns the string itself, so applying it
  to its own result gives the same result.
\<close>

theorem formatDate_idempotent:
  assumes "validateDateFormat d"
    and "1 \<le> decimal (month_of d)" and "decimal (month_of d) \<le> 12"
    and "1 \<le> decimal (day_of d)" and "decimal (day_of d) \<le> 31"
  shows "formatDate d = Inr d
     \<and> (case formatDate d of Inl e \<Rightarrow> Inl e | Inr r \<Rightarrow> formatDate r) = formatDate d"
proof -
  have s: "date_shape d" using assms(1) by (simp add: validateDateFormat_iff)
  have "\<not> out_of_range d" using assms(2-5) by (simp add: out_of_range_def)
  then have "formatDate d = Inr d" using formatDate_shape(1)[OF s] by simp
  then show ?thesis by simp
qed

text \<open>
  C7, witness: \<^verbatim>\<open>2024-03-05\<close>.
\<close>

theorem formatDate_idempotent_witness:
  "validateDateFormat (js ''2024-03-05'')
   \<and> decimal (month_of (js ''2024-03-05'')) = 3
   \<and> decimal (day_of (js ''2024-03-05'')) = 5
   \<and> formatDate (js ''2024-03-05'') = Inr (js ''2024-03-05'')"
proof -
  have a: "validateDateFormat (js ''2024-03-05'')" by code_simp
  have b: "decimal (month_of (js ''2024-03-05'')) = 3" by code_simp
  have c: "decimal (day_of (js ''2024-03-05'')) = 5" by code_simp
  have "1 \<le> decimal (month_of (js ''2024-03-05''))" "decimal (month_of (js ''2024-03-05'')) \<le> 12"
    "1 \<le> decimal (day_of (js ''2024-03-05''))" "decimal (day_of (js ''2024-03-05'')) \<le> 31"
    using b c by simp_all
  from formatDate_idempotent[OF a this] show ?thesis using a b c by simp
qed

text \<open>
  C4, counterexample: eleven digits are the wrong digit count for a phone number, and
  \<open>formatPhoneNumber\<close> rewrites the first ten of them.
\<close>

theorem formatPhoneNumber_counterexample:
  "list_all is_digit (js ''12345678901'')
   \<and> length (js ''12345678901'') = 11
   \<and> formatPhoneNumber (js ''12345678901'') = js ''(123) 456-78901''
   \<and> formatPhoneNumber (js ''12345678901'') \<noteq> js ''12345678901''"
  by code_simp

text \<open>
  C4, as amended. \<open>formatPhoneNumber\<close> rewrites the leftmost ten consecutive digits,
  whether or not more digits follow them, into the shape \<^verbatim>\<open>(XXX) XXX-XXXX\<close> and keeps the
  text around them; it returns its input unchanged exactly when the input has no ten
  consecutive digits. Ten digits are formatted and five digits are left as they are.
\<close>

theorem formatPhoneNumber_spec:
  "(digit_window s i \<and> (\<forall>j<i. \<not> digit_window s j) \<longrightarrow>
      formatPhoneNumber s =
        take i s @ js ''('' @ take 3 (drop i s) @ js '') '' @ take 3 (drop (i + 3) s)
          @ js ''-'' @ take 4 (drop (i + 6) s) @ drop (i + 10) s)
   \<and> (formatPhoneNumber s = s \<longleftrightarrow> (\<forall>k. \<not> digit_window s k))
   \<and> formatPhoneNumber (js ''1234567890'') = js ''(123) 456-7890''
   \<and> formatPhoneNumber (js ''12345'') = js ''12345''"
proof -
  have 1: "formatPhoneNumber s =
        take i s @ js ''('' @ take 3 (drop i s) @ js '') '' @ take 3 (drop (i + 3) s)
          @ js ''-'' @ take 4 (drop (i + 6) s) @ drop (i + 10) s"
    if "digit_window s i" "\<forall>j<i. \<not> digit_window s j"
    using formatPhoneNumber_first[of s i] that by (simp add: phone_replacement_window)
  have 2: "formatPhoneNumber s = s \<longleftrightarrow> (\<forall>k. \<not> digit_window s k)"
    using formatPhoneNumber_unchanged[of s] formatPhoneNumber_changed[of s] by blast
  have 3: "formatPhoneNumber (js ''1234567890'') = js ''(123) 456-7890''" by code_simp
  have 4: "formatPhoneNumber (js ''12345'') = js ''12345''" by code_simp
  show ?thesis using 1 2 3 4 by blast
qed

text \<open>
  C4, witness: a sign before eleven digits, and a number with separators.
\<close>

theorem formatPhoneNumber_spec_witness:
  "digit_window (js ''+12345678901'') 1
   \<and> \<not> digit_window (js ''+12345678901'') 0
   \<and> formatPhoneNumber (js ''+12345678901'') = js ''+(123) 456-78901''
   \<and> formatPhoneNumber (js ''123-456-7890'') = js ''123-456-7890''"
proof -
  have a: "digit_window (js ''+12345678901'') 1" by code_simp
  have b: "\<not> digit_window (js ''+12345678901'') 0" by code_simp
  have c: "\<forall>j<1. \<not> digit_window (js ''+12345678901'') j" using b by simp
  have d: "take 1 (js ''+12345678901'') @ js ''('' @ take 3 (drop 1 (js ''+12345678901''))
      @ js '') '' @ take 3 (drop (1 + 3) (js ''+12345678901'')) @ js ''-''
      @ take 4 (drop (1 + 6) (js ''+12345678901'')) @ drop (1 + 10) (js ''+12345678901'')
      = js ''+(123) 456-78901''" by code_simp
  have e: "formatPhoneNumber (js ''123-456-7890'') = js ''123-456-7890''" by code_simp
  show ?thesis
    using formatPhoneNumber_spec[of "js ''+12345678901''" 1] a b c d e by simp
qed

text \<open>
  C5, counterexample: \<^verbatim>\<open>mary-jane\<close> has no whitespace, the \<^verbatim>\<open>j\<close> at index 5 follows a hyphen
  and is not the first letter of a whitespace-delimited word, and \<open>capitalizeName\<close>
  uppercases it.
\<close>

theorem capitalizeName_counterexample:
  "\<not> spec_word_start (js ''mary-jane'') 5
   \<and> capitalizeName (js ''mary-jane'') ! 5 \<noteq> js ''mary-jane'' ! 5
   \<and> capitalizeName (js ''mary-jane'') = js ''Mary-Jane''"
  by code_simp

text \<open>
  C5, as amended. On a string of ASCII code units, \<open>capitalizeName\<close> keeps the length
  of its input and changes exactly the code units that start a run of word characters
  \<^verbatim>\<open>[A-Za-z0-9_]\<close> (at the start of the string or after a code unit that is not a word
  character, such as whitespace, a hyphen or an apostrophe): such a code unit is
  uppercased when it is a lowercase letter, and every other code unit is left as it is.
  Nothing is lowercased or trimmed, and \<^verbatim>\<open>john doe\<close> becomes \<^verbatim>\<open>John Doe\<close>.
\<close>

theorem capitalizeName_spec:
  assumes "list_all is_ascii s"
  shows "length (capitalizeName s) = length s
     \<and> (\<forall>i<length s. capitalizeName s ! i =
          (if word_start s i then toUpperCase (s ! i) else s ! i))
     \<and> capitalizeName (js ''john doe'') = js ''John Doe''"
proof -
  have "capitalizeName s ! i = (if word_start s i then toUpperCase (s ! i) else s ! i)"
    if "i < length s" for i
    using capitalize_from_nth[OF that, of False]
    by (auto simp: capitalizeName_def word_start_def)
  moreover have "capitalizeName (js ''john doe'') = js ''John Doe''" by code_simp
  ultimately show ?thesis by (simp add: capitalizeName_def capitalize_from_length)
qed

text \<open>
  C5, witness: the first letter of \<^verbatim>\<open>ann LEE\<close> is uppercased and an interior capital is
  kept.
\<close>

theorem capitalizeName_spec_witness:
  "list_all is_ascii (js ''ann LEE'')
   \<and> length (capitalizeName (js ''ann LEE'')) = 7
   \<and> word_start (js ''ann LEE'') 0
   \<and> capitalizeName (js ''ann LEE'') ! 0 = toUpperCase (js ''ann LEE'' ! 0)
   \<and> \<not> word_start (js ''ann LEE'') 5
   \<and> capitalizeName (js ''ann LEE'') ! 5 = js ''ann LEE'' ! 5"
proof -
  have h: "list_all is_ascii (js ''ann LEE'')" by code_simp
  have a: "length (js ''ann LEE'') = 7" by (simp add: js_def)
  have b: "word_start (js ''ann LEE'') 0" by code_simp
  have c: "\<not> word_start (js ''ann LEE'') 5" by code_simp
  show ?thesis using capitalizeName_spec[OF h] h a b c by simp
qed

end
